theory Spec2Isabelle
  imports Main "HOL-Library.AList"
begin

section \<open>Python values shared by the scripts\<close>

text \<open>
  The scripts keep their dictionaries in insertion order and iterate over them, so a
  dictionary is an association list with distinct keys: \<open>AList.update\<close> overwrites a
  key in place or appends a new key at the end (\<open>d[k] = v\<close>), \<open>AList.delete\<close>
  removes it (\<open>d.pop(k, None)\<close>) and \<open>map_of\<close> reads it (\<open>d.get(k)\<close>).
\<close>

datatype py_error = TypeError | JSONDecodeError | AttributeError | ValueError

text \<open>\<open>d.setdefault(k, []).append(x)\<close>\<close>

definition setdefault_append :: "('k \<times> 'v list) list \<Rightarrow> 'k \<Rightarrow> 'v \<Rightarrow> ('k \<times> 'v list) list" where
  "setdefault_append d k x =
     (case map_of d k of
        None \<Rightarrow> d @ [(k, [x])]
      | Some xs \<Rightarrow> AList.update k (xs @ [x]) d)"

section \<open>acc-replay-analysis.py: incremental occupancy replay\<close>

text \<open>
  \<open>UnifiedEvent\<close> is built at two places only: \<open>stream_xovis_zone_events\<close> yields
  events with \<open>source = "xovis"\<close>, an integer \<open>track_id\<close> and \<open>zone_id\<close> and an
  \<open>event_type\<close> string; \<open>load_acc_events\<close> appends events with \<open>source = "acc"\<close>,
  \<open>event_type = "ACC"\<close>, no track and no zone, a \<open>kiosk_ip\<close> string
  (\<open>"unknown"\<close> when absent) and optional \<open>receipt_id\<close> and \<open>pos_zone\<close>. The two
  constructors are these two shapes; the first field of each is \<open>ts_ms\<close>.
\<close>

datatype UnifiedEvent =
    is_Xovis: Xovis (ts_ms: int) (event_type: string) (track_id: int) (zone_id: int)
  | is_Acc: Acc (ts_ms: int) (receipt_id: "string option") (kiosk_ip: string) (pos_zone: "string option")

record RecentExit =
  exit_track_id :: int
  exit_time :: int

text \<open>
  \<open>AccResult\<close>; the field \<open>ts_recv\<close> (the ISO rendering of \<open>ts_ms\<close>) is not kept.
\<close>

record AccResult =
  res_receipt_id :: string
  res_ts_ms :: int
  res_pos_zone :: string
  res_zone_id :: int
  res_kiosk_ip :: string
  candidates :: "int list"
  person_count :: nat
  matched :: bool
  grace_candidates :: "int list option"
  match_type :: string

record by_pos_stats =
  total :: nat
  person_0 :: nat
  grace_matches :: nat

record replay_stats =
  total_zone_events :: nat
  total_acc_events :: nat
  person_counts :: "string \<Rightarrow> nat"
  match_types :: "string \<Rightarrow> nat"
  by_pos :: "string \<Rightarrow> by_pos_stats"

record replay_state =
  occupancy :: "int \<Rightarrow> int set"
  recent_exits :: "int \<Rightarrow> RecentExit list"
  results :: "AccResult list"
  stats :: replay_stats

text \<open>
  \<open>make_key\<close> of \<open>merge_event_streams\<close>: the pair (timestamp, 0 for a sensor event,
  1 for a payment), compared as Python compares tuples.
\<close>

fun make_key :: "UnifiedEvent \<Rightarrow> int \<times> nat" where
  "make_key (Xovis t _ _ _) = (t, 0)"
| "make_key (Acc t _ _ _) = (t, 1)"

definition key_less :: "int \<times> nat \<Rightarrow> int \<times> nat \<Rightarrow> bool" where
  "key_less a b = (fst a < fst b \<or> (fst a = fst b \<and> snd a < snd b))"

definition key_le :: "int \<times> nat \<Rightarrow> int \<times> nat \<Rightarrow> bool" where
  "key_le a b = (fst a < fst b \<or> (fst a = fst b \<and> snd a \<le> snd b))"

text \<open>
  \<open>heapq.merge\<close> of two iterables: the smaller head goes first, and on equal keys the
  head of the first iterable (the sensor stream) goes first.
\<close>

fun merge_event_streams :: "UnifiedEvent list \<Rightarrow> UnifiedEvent list \<Rightarrow> UnifiedEvent list" where
  "merge_event_streams [] ys = ys"
| "merge_event_streams xs [] = xs"
| "merge_event_streams (x # xs) (y # ys) =
     (if key_less (make_key y) (make_key x)
      then y # merge_event_streams (x # xs) ys
      else x # merge_event_streams xs (y # ys))"

definition empty_stats :: replay_stats where
  "empty_stats = \<lparr>total_zone_events = 0, total_acc_events = 0,
     person_counts = (\<lambda>_. 0), match_types = (\<lambda>_. 0),
     by_pos = (\<lambda>_. \<lparr>total = 0, person_0 = 0, grace_matches = 0\<rparr>)\<rparr>"

definition initial_state :: replay_state where
  "initial_state = \<lparr>occupancy = (\<lambda>_. {}), recent_exits = (\<lambda>_. []),
     results = [], stats = empty_stats\<rparr>"

definition bump_zone_events :: "replay_stats \<Rightarrow> replay_stats" where
  "bump_zone_events s = s\<lparr>total_zone_events := total_zone_events s + 1\<rparr>"

definition bump_acc_events :: "replay_stats \<Rightarrow> replay_stats" where
  "bump_acc_events s = s\<lparr>total_acc_events := total_acc_events s + 1\<rparr>"

definition bucket_of :: "nat \<Rightarrow> string" where
  "bucket_of n = (if n \<ge> 3 then ''person_3+''
                  else if n = 0 then ''person_0''
                  else if n = 1 then ''person_1'' else ''person_2'')"

definition record_acc :: "replay_stats \<Rightarrow> string \<Rightarrow> nat \<Rightarrow> string \<Rightarrow> replay_stats" where
  "record_acc s pos n mt =
     (let b = bucket_of n;
          p = by_pos s pos;
          p1 = p\<lparr>total := total p + 1\<rparr>;
          p2 = (if n = 0 then p1\<lparr>person_0 := person_0 p1 + 1\<rparr> else p1);
          p3 = (if mt = ''grace'' then p2\<lparr>grace_matches := grace_matches p2 + 1\<rparr> else p2)
      in s\<lparr>person_counts := (person_counts s)(b := person_counts s b + 1),
           match_types := (match_types s)(mt := match_types s mt + 1),
           by_pos := (by_pos s)(pos := p3)\<rparr>)"

text \<open>
  The grace scan of one payment: the exits of the zone at or after the cutoff, as a
  sorted list without the ids that are candidates already.
\<close>

definition grace_scan :: "RecentExit list \<Rightarrow> int \<Rightarrow> int list \<Rightarrow> int list" where
  "grace_scan zone_exits cutoff cands =
     sorted_list_of_set
       (set (map exit_track_id (filter (\<lambda>ex. exit_time ex \<ge> cutoff) zone_exits)) - set cands)"

text \<open>
  One iteration of the loop of \<open>replay_and_evaluate\<close>. \<open>pos_name_to_zone_id\<close> is the
  dictionary from zone names to ids, \<open>pos_zone_ids\<close> the set of zone ids whose occupancy
  is tracked.
\<close>

fun replay_step ::
  "(string \<rightharpoonup> int) \<Rightarrow> int set \<Rightarrow> int \<Rightarrow> replay_state \<Rightarrow> UnifiedEvent \<Rightarrow> replay_state" where
  "replay_step pos_name_to_zone_id pos_zone_ids exit_grace_ms st (Xovis t etype tid zid) =
     (if zid \<notin> pos_zone_ids then st
      else
        let st1 = st\<lparr>stats := bump_zone_events (stats st)\<rparr> in
        if etype = ''ZONE_ENTRY'' then
          st1\<lparr>occupancy := (occupancy st1)(zid := insert tid (occupancy st1 zid))\<rparr>
        else if etype = ''ZONE_EXIT'' then
          st1\<lparr>occupancy := (occupancy st1)(zid := occupancy st1 zid - {tid}),
              recent_exits := (recent_exits st1)
                (zid := recent_exits st1 zid @ [\<lparr>exit_track_id = tid, exit_time = t\<rparr>])\<rparr>
        else st1)"
| "replay_step pos_name_to_zone_id pos_zone_ids exit_grace_ms st (Acc t receipt kiosk pos) =
     (let st1 = st\<lparr>stats := bump_acc_events (stats st)\<rparr> in
      case (case pos of None \<Rightarrow> None | Some name \<Rightarrow> pos_name_to_zone_id name) of
        None \<Rightarrow> st1
      | Some zid \<Rightarrow>
          let cands = sorted_list_of_set (occupancy st1 zid);
              n = length cands;
              cutoff = t - exit_grace_ms;
              zone_exits = recent_exits st1 zid;
              grace = grace_scan zone_exits cutoff cands;
              mt = (if n > 0 then ''current'' else if grace \<noteq> [] then ''grace'' else ''none'');
              res = \<lparr>res_receipt_id = (case receipt of None \<Rightarrow> '''' | Some r \<Rightarrow> r),
                     res_ts_ms = t,
                     res_pos_zone = (case pos of None \<Rightarrow> '''' | Some p \<Rightarrow> p),
                     res_zone_id = zid,
                     res_kiosk_ip = kiosk,
                     candidates = cands,
                     person_count = n,
                     matched = (mt \<noteq> ''none''),
                     grace_candidates = (if grace \<noteq> [] then Some grace else None),
                     match_type = mt\<rparr>
          in st1\<lparr>stats := record_acc (stats st1) (case pos of None \<Rightarrow> '''' | Some p \<Rightarrow> p) n mt,
                 results := results st1 @ [res],
                 recent_exits :=
                   (if length zone_exits > 100
                    then (recent_exits st1)(zid := filter (\<lambda>ex. exit_time ex \<ge> cutoff) zone_exits)
                    else recent_exits st1)\<rparr>)"

definition replay_loop ::
  "(string \<rightharpoonup> int) \<Rightarrow> int set \<Rightarrow> int \<Rightarrow> UnifiedEvent list \<Rightarrow> replay_state" where
  "replay_loop names zones grace evs = foldl (replay_step names zones grace) initial_state evs"

definition replay_and_evaluate ::
  "UnifiedEvent list \<Rightarrow> (string \<rightharpoonup> int) \<Rightarrow> int set \<Rightarrow> int \<Rightarrow> AccResult list \<times> replay_stats" where
  "replay_and_evaluate event_stream names zones grace =
     (let st = replay_loop names zones grace event_stream in (results st, stats st))"

section \<open>acc-person2-review.py: retrospective matching on prebuilt intervals\<close>

definition GROUP_ID_BASE :: int where
  "GROUP_ID_BASE = 2147483648"

text \<open>
  A loaded zone event is \<open>(recv_ms, frame_time, etype, track_id, zone_id)\<close> with an
  optional receive time; after the cutoff filter it is
  \<open>(frame_ms, etype, track_id, zone_id)\<close>. An interval is
  \<open>(start, end, zone_id, closed)\<close>.
\<close>

type_synonym zone_event = "int option \<times> int \<times> string \<times> int \<times> int"
type_synonym cut_event = "int \<times> string \<times> int \<times> int"
type_synonym interval = "int \<times> int \<times> int \<times> bool"

fun filter_zone_events :: "zone_event list \<Rightarrow> int \<Rightarrow> cut_event list" where
  "filter_zone_events [] cutoff_ms = []"
| "filter_zone_events ((recv_ms, frame_ms, etype, tid, zid) # rest) cutoff_ms =
     (case recv_ms of
        Some r \<Rightarrow>
          if r > cutoff_ms then filter_zone_events rest cutoff_ms
          else (frame_ms, etype, tid, zid) # filter_zone_events rest cutoff_ms
      | None \<Rightarrow> (frame_ms, etype, tid, zid) # filter_zone_events rest cutoff_ms)"

text \<open>
  The loop of \<open>build_intervals\<close> over the time-sorted events: the state is
  \<open>open_intervals\<close>, keyed by \<open>(track_id, zone_id)\<close>, and \<open>intervals_by_track\<close>.
\<close>

fun intervals_step ::
  "((int \<times> int) \<times> int) list \<times> (int \<times> interval list) list \<Rightarrow> cut_event \<Rightarrow>
   ((int \<times> int) \<times> int) list \<times> (int \<times> interval list) list" where
  "intervals_step (open_intervals, by_track) (t_ms, etype, tid, zid) =
     (if etype = ''ZONE_ENTRY'' then (AList.update (tid, zid) t_ms open_intervals, by_track)
      else if etype = ''ZONE_EXIT'' then
        (case map_of open_intervals (tid, zid) of
           None \<Rightarrow> (open_intervals, by_track)
         | Some start \<Rightarrow>
             (AList.delete (tid, zid) open_intervals,
              setdefault_append by_track tid (start, t_ms, zid, True)))
      else (open_intervals, by_track))"

text \<open>The closing loop: every interval still open ends at the last event time, unclosed.\<close>

fun close_open ::
  "int \<Rightarrow> ((int \<times> int) \<times> int) list \<Rightarrow> (int \<times> interval list) list \<Rightarrow> (int \<times> interval list) list" where
  "close_open last_time [] by_track = by_track"
| "close_open last_time (((tid, zid), start) # rest) by_track =
     close_open last_time rest (setdefault_append by_track tid (start, last_time, zid, False))"

definition build_intervals :: "cut_event list \<Rightarrow> (int \<times> interval list) list" where
  "build_intervals zone_events =
     (let evs = sort_key fst zone_events;
          (open_intervals, by_track) = foldl intervals_step ([], []) evs
      in if evs = [] then by_track
         else close_open (fst (last evs)) open_intervals by_track)"

text \<open>
  The loop of \<open>merge_intervals\<close>; \<open>merged\<close> is never empty here, it starts as the
  first interval.
\<close>

fun merge_intervals_loop :: "int \<Rightarrow> interval list \<Rightarrow> interval list \<Rightarrow> interval list" where
  "merge_intervals_loop merge_window_ms merged [] = merged"
| "merge_intervals_loop merge_window_ms merged ((start, end, zid, closed) # rest) =
     (case last merged of (p_start, p_end, p_zone, p_closed) \<Rightarrow>
        if zid = p_zone \<and> start - p_end \<le> merge_window_ms
        then merge_intervals_loop merge_window_ms
               (butlast merged @ [(p_start, max p_end end, zid, p_closed \<and> closed)]) rest
        else merge_intervals_loop merge_window_ms (merged @ [(start, end, zid, closed)]) rest)"

definition merge_intervals :: "interval list \<Rightarrow> int \<Rightarrow> interval list" where
  "merge_intervals intervals merge_window_ms =
     (case sort_key fst intervals of
        [] \<Rightarrow> []
      | first # rest \<Rightarrow> merge_intervals_loop merge_window_ms [first] rest)"

text \<open>
  The inner loop of \<open>candidates_at\<close> for one track: whether some interval of the zone
  covers the time (the loop appends the track once and breaks).
\<close>

fun covers_at :: "int \<Rightarrow> int \<Rightarrow> int \<Rightarrow> int \<Rightarrow> interval list \<Rightarrow> bool" where
  "covers_at zone acc_time lookback_ms exit_grace_ms [] = False"
| "covers_at zone acc_time lookback_ms exit_grace_ms ((start, end, zid, closed) # rest) =
     (if zid \<noteq> zone then covers_at zone acc_time lookback_ms exit_grace_ms rest
      else if closed then
        (if start \<le> acc_time \<and> acc_time \<le> end + exit_grace_ms then True
         else covers_at zone acc_time lookback_ms exit_grace_ms rest)
      else
        (if start \<le> acc_time \<and> acc_time \<le> start + lookback_ms then True
         else covers_at zone acc_time lookback_ms exit_grace_ms rest))"

definition candidates_at ::
  "int \<Rightarrow> int \<Rightarrow> (int \<times> interval list) list \<Rightarrow> int \<Rightarrow> int \<Rightarrow> int list" where
  "candidates_at zone acc_time merged_by_track lookback_ms exit_grace_ms =
     map fst (filter (\<lambda>(tid, intervals).
        covers_at zone acc_time lookback_ms exit_grace_ms intervals) merged_by_track)"

text \<open>
  \<open>merged_by_track_for\<close> of \<open>main\<close>, with the loaded events and the merge window it
  closes over as arguments. \<open>build_intervals\<close> sorts the list it is given in place, so
  the filtered list returned as second component is sorted by frame time.
\<close>

definition merged_by_track_for ::
  "zone_event list \<Rightarrow> int \<Rightarrow> int \<Rightarrow> (int \<times> interval list) list \<times> cut_event list" where
  "merged_by_track_for zone_events merge_window_ms cutoff_ms =
     (let filtered = filter_zone_events zone_events cutoff_ms;
          intervals_by_track = build_intervals filtered
      in (map (\<lambda>(tid, intervals). (tid, merge_intervals intervals merge_window_ms))
            (filter (\<lambda>(tid, intervals). \<not> tid \<ge> GROUP_ID_BASE) intervals_by_track),
          sort_key fst filtered))"

section \<open>acc-group-eval.py: session builder and session merger\<close>

text \<open>
  A \<open>datetime\<close> is offset-aware or offset-naive. It is modelled by its kind and its
  count of microseconds (the resolution of \<open>datetime\<close>) from a fixed origin: the
  instant for an aware value, the wall-clock reading for a naive one. Two values of
  the same kind compare and subtract as their counts do; comparing or subtracting an
  aware and a naive value raises \<open>TypeError\<close>.
\<close>

datatype datetime = is_aware: Aware (micros: int) | Naive (micros: int)

definition dt_le :: "datetime \<Rightarrow> datetime \<Rightarrow> py_error + bool" where
  "dt_le a b = (if is_aware a = is_aware b then Inr (micros a \<le> micros b) else Inl TypeError)"

definition dt_diff :: "datetime \<Rightarrow> datetime \<Rightarrow> py_error + int" where
  "dt_diff a b = (if is_aware a = is_aware b then Inr (micros a - micros b) else Inl TypeError)"

text \<open>
  The value under \<open>"ts"\<close> of an event: absent or null, a string, or anything else.
  \<open>parse_ts\<close> returns \<open>None\<close> for \<open>None\<close>, raises \<open>AttributeError\<close> on a value
  without \<open>endswith\<close>, replaces a final \<open>Z\<close> by \<open>+00:00\<close> and hands the string to
  \<open>datetime.fromisoformat\<close>, which raises \<open>ValueError\<close> on a string it rejects. The
  library parser is the parameter \<open>fromiso\<close>, \<open>None\<close> where it raises.
\<close>

datatype json_ts = TsNull | TsString string | TsOther

definition parse_ts :: "(string \<Rightarrow> datetime option) \<Rightarrow> json_ts \<Rightarrow> py_error + datetime option" where
  "parse_ts fromiso ts =
     (case ts of
        TsNull \<Rightarrow> Inr None
      | TsOther \<Rightarrow> Inl AttributeError
      | TsString s \<Rightarrow>
          (case fromiso (if s \<noteq> [] \<and> last s = CHR ''Z'' then butlast s @ ''+00:00'' else s) of
             None \<Rightarrow> Inl ValueError
           | Some d \<Rightarrow> Inr (Some d)))"

text \<open>
  A journey event, reduced to what \<open>build_raw_sessions\<close> reads: \<open>event.get("type")\<close>,
  \<open>event.get("ts")\<close> and \<open>data.get("zone")\<close>, the first and the last absent or a string.
\<close>

record journey_event =
  ev_type :: "string option"
  ev_ts :: json_ts
  ev_zone :: "string option"

text \<open>A session is the list \<open>[zone, start, end]\<close>; start and end may be \<open>None\<close>.\<close>

type_synonym session = "string \<times> datetime option \<times> datetime option"

definition s_zone :: "session \<Rightarrow> string" where
  "s_zone s = fst s"

definition s_start :: "session \<Rightarrow> datetime option" where
  "s_start s = fst (snd s)"

definition s_end :: "session \<Rightarrow> datetime option" where
  "s_end s = snd (snd s)"

definition is_pos_zone :: "string \<Rightarrow> bool" where
  "is_pos_zone zone = (zone \<noteq> [] \<and> take 4 zone = ''POS_'')"

text \<open>
  \<open>sessions.sort(key=lambda s: s[1])\<close>. A list of at most one element is returned as it
  is, without a comparison. A sort of two or more elements compares every element with
  another one, and the comparisons it makes connect all elements; so it raises
  \<open>TypeError\<close> exactly when a start is \<open>None\<close> or the starts are not all of one kind.
  Otherwise it sorts by the counts of the starts, stably, as \<open>sort_key\<close> does.
  \<open>start_key\<close> is read at a missing start only when the list has a single element.
\<close>

definition start_key :: "session \<Rightarrow> int" where
  "start_key s = (case s_start s of Some d \<Rightarrow> micros d | None \<Rightarrow> 0)"

definition starts_comparable :: "session list \<Rightarrow> bool" where
  "starts_comparable xs =
     ((\<forall>s \<in> set xs. s_start s \<noteq> None)
      \<and> (\<forall>a \<in> set xs. \<forall>b \<in> set xs. is_aware (the (s_start a)) = is_aware (the (s_start b))))"

definition sort_by_start :: "session list \<Rightarrow> py_error + session list" where
  "sort_by_start xs =
     (if length xs \<ge> 2 \<and> \<not> starts_comparable xs then Inl TypeError
      else Inr (sort_key start_key xs))"

text \<open>
  The loop body of \<open>build_raw_sessions\<close>; the state is \<open>(sessions, open_entries)\<close>.
  The timestamp of every event of a POS zone is parsed, whatever the type of the event.
  \<open>open_entries.pop(zone, None)\<close> removes the key; a stored \<open>None\<close> (an entry
  without timestamp) emits nothing.
\<close>

definition raw_step ::
  "(string \<Rightarrow> datetime option) \<Rightarrow> session list \<times> (string \<times> datetime option) list \<Rightarrow>
   journey_event \<Rightarrow> py_error + session list \<times> (string \<times> datetime option) list" where
  "raw_step fromiso st event =
     (case st of (sessions, open_entries) \<Rightarrow>
       (case ev_zone event of
          None \<Rightarrow> Inr (sessions, open_entries)
        | Some zone \<Rightarrow>
            if \<not> is_pos_zone zone then Inr (sessions, open_entries)
            else
              (case parse_ts fromiso (ev_ts event) of
                 Inl err \<Rightarrow> Inl err
               | Inr event_ts \<Rightarrow>
                   if ev_type event = Some ''zone_entry''
                     then Inr (sessions, AList.update zone event_ts open_entries)
                   else if ev_type event = Some ''zone_exit''
                     then (case map_of open_entries zone of
                             None \<Rightarrow> Inr (sessions, open_entries)
                           | Some None \<Rightarrow> Inr (sessions, AList.delete zone open_entries)
                           | Some (Some entry) \<Rightarrow>
                               Inr (sessions @ [(zone, Some entry, event_ts)],
                                    AList.delete zone open_entries))
                   else Inr (sessions, open_entries))))"

text \<open>The loop: the first event that raises ends it.\<close>

definition raw_loop ::
  "(string \<Rightarrow> datetime option) \<Rightarrow> journey_event list \<Rightarrow>
   py_error + session list \<times> (string \<times> datetime option) list" where
  "raw_loop fromiso events =
     foldl (\<lambda>acc event. case acc of Inl err \<Rightarrow> Inl err | Inr st \<Rightarrow> raw_step fromiso st event)
       (Inr ([], [])) events"

definition unclosed :: "(string \<times> datetime option) list \<Rightarrow> session list" where
  "unclosed open_entries = map (\<lambda>(zone, entry). (zone, entry, None)) open_entries"

definition build_raw_sessions ::
  "(string \<Rightarrow> datetime option) \<Rightarrow> journey_event list \<Rightarrow> py_error + session list" where
  "build_raw_sessions fromiso events =
     (case raw_loop fromiso events of
        Inl err \<Rightarrow> Inl err
      | Inr (sessions, open_entries) \<Rightarrow> sort_by_start (sessions @ unclosed open_entries))"

section \<open>The specification's properties, in its own words\<close>

text \<open>
  Sensor before payment at equal timestamps: an earlier element of the merged sequence is
  strictly older than a later one, or as old and not a payment ahead of a sensor event.
\<close>

definition sensor_first :: "UnifiedEvent \<Rightarrow> UnifiedEvent \<Rightarrow> bool" where
  "sensor_first a b =
     (ts_ms a < ts_ms b \<or> (ts_ms a = ts_ms b \<and> \<not> (is_Acc a \<and> is_Xovis b)))"

text \<open>
  The ids with an ENTRY to zone \<open>Z\<close> in the prefix \<open>P\<close> that no EXIT from \<open>Z\<close> follows
  within \<open>P\<close>.
\<close>

definition entered_not_exited :: "UnifiedEvent list \<Rightarrow> int \<Rightarrow> int set" where
  "entered_not_exited P Z =
     {p. \<exists>i < length P. (\<exists>t. P ! i = Xovis t ''ZONE_ENTRY'' p Z) \<and>
          (\<forall>j. i < j \<and> j < length P \<longrightarrow> (\<forall>t. P ! j \<noteq> Xovis t ''ZONE_EXIT'' p Z))}"

text \<open>
  The sensor events of a sequence are restricted to the zones of interest: every sensor
  event is of a zone in \<open>pos_zone_ids\<close>.
\<close>

definition restricted_to :: "int set \<Rightarrow> UnifiedEvent list \<Rightarrow> bool" where
  "restricted_to zones evs = list_all (\<lambda>e. is_Acc e \<or> zone_id e \<in> zones) evs"

text \<open>No grace candidate of a result is one of its candidates.\<close>

definition grace_disjoint :: "AccResult \<Rightarrow> bool" where
  "grace_disjoint r =
     (set (case grace_candidates r of None \<Rightarrow> [] | Some gc \<Rightarrow> gc) \<inter> set (candidates r) = {})"

text \<open>
  The session builder, told as a property of the event list. The parse failure of a list
  is the error of its first event of a POS zone whose timestamp does not parse. The time
  of an event is its parsed timestamp. An event is relevant to a zone when it is an entry
  or an exit of that zone. The open start of a zone after a list of events is the time of
  its last relevant event, when that event is an entry: a later entry supersedes an
  earlier one, an exit closes it. An exit of a POS zone emits the session from the open
  start to its own time when the zone is open with a start, and nothing otherwise.
  \<open>closed_sessions\<close> collects what the exits emit, in order.
\<close>

definition pos_zone_event :: "journey_event \<Rightarrow> bool" where
  "pos_zone_event e = (case ev_zone e of None \<Rightarrow> False | Some z \<Rightarrow> is_pos_zone z)"

definition parse_failure :: "(string \<Rightarrow> datetime option) \<Rightarrow> journey_event list \<Rightarrow> py_error option" where
  "parse_failure fromiso evs =
     (case filter (\<lambda>e. pos_zone_event e \<and> isl (parse_ts fromiso (ev_ts e))) evs of
        [] \<Rightarrow> None
      | e # _ \<Rightarrow> Some (projl (parse_ts fromiso (ev_ts e))))"

definition event_time :: "(string \<Rightarrow> datetime option) \<Rightarrow> journey_event \<Rightarrow> datetime option" where
  "event_time fromiso e = (case parse_ts fromiso (ev_ts e) of Inl _ \<Rightarrow> None | Inr t \<Rightarrow> t)"

definition relevant :: "string \<Rightarrow> journey_event \<Rightarrow> bool" where
  "relevant z e = (ev_zone e = Some z \<and>
     (ev_type e = Some ''zone_entry'' \<or> ev_type e = Some ''zone_exit''))"

definition last_open ::
  "(string \<Rightarrow> datetime option) \<Rightarrow> journey_event list \<Rightarrow> string \<Rightarrow> datetime option option" where
  "last_open fromiso evs z =
     (case rev (filter (relevant z) evs) of
        [] \<Rightarrow> None
      | e # _ \<Rightarrow> if ev_type e = Some ''zone_entry'' then Some (event_time fromiso e) else None)"

definition emitted_at ::
  "(string \<Rightarrow> datetime option) \<Rightarrow> journey_event list \<Rightarrow> journey_event \<Rightarrow> session list" where
  "emitted_at fromiso before e =
     (case ev_zone e of
        None \<Rightarrow> []
      | Some z \<Rightarrow>
          if is_pos_zone z \<and> ev_type e = Some ''zone_exit''
          then (case last_open fromiso before z of
                  Some (Some s) \<Rightarrow> [(z, Some s, event_time fromiso e)]
                | _ \<Rightarrow> [])
          else [])"

definition closed_sessions :: "(string \<Rightarrow> datetime option) \<Rightarrow> journey_event list \<Rightarrow> session list" where
  "closed_sessions fromiso evs =
     concat (map (\<lambda>j. emitted_at fromiso (take j evs) (evs ! j)) [0..<length evs])"

definition zone_entry :: "string \<Rightarrow> json_ts \<Rightarrow> journey_event" where
  "zone_entry z t = \<lparr>ev_type = Some ''zone_entry'', ev_ts = t, ev_zone = Some z\<rparr>"

definition zone_exit :: "string \<Rightarrow> json_ts \<Rightarrow> journey_event" where
  "zone_exit z t = \<lparr>ev_type = Some ''zone_exit'', ev_ts = t, ev_zone = Some z\<rparr>"


text \<open>
  A parser for the examples: \<open>datetime.fromisoformat\<close> on the strings the examples use,
  with 2024-01-01T00:00:00 as origin of the counts; it rejects \<open>soon\<close>, as the library
  does.
\<close>

definition iso_example :: "string \<Rightarrow> datetime option" where
  "iso_example = map_of
     [(''2024-01-01T00:00:00+00:00'', Aware 0),
      (''2024-01-01T00:00:03+00:00'', Aware 3000000),
      (''2024-01-01T00:00:05+00:00'', Aware 5000000),
      (''2024-01-01T00:00:07+00:00'', Aware 7000000),
      (''2024-01-01T00:00:10+00:00'', Aware 10000000),
      (''2024-01-01T00:00:11+00:00'', Aware 11000000),
      (''2024-01-01T00:00:12+00:00'', Aware 12000000),
      (''2024-01-01T00:00:13+00:00'', Aware 13000000),
      (''2024-01-01T00:00:14+00:00'', Aware 14000000),
      (''2024-01-01T00:00:15+00:00'', Aware 15000000),
      (''2024-01-01T00:00:20+00:00'', Aware 20000000),
      (''2024-01-01T00:00:30+00:00'', Aware 30000000),
      (''2024-01-01T00:00:05'', Naive 5000000)]"

text \<open>
  Events in time order: no timestamp of an event of a POS zone fails to parse, the
  entries and exits of POS zones all carry a timestamp, these are all of one kind, and
  they never decrease along the list. A session ends before another when it is closed and
  its end is not after the other's start. A list of sessions is well formed when every
  start is present, all its starts and ends are of one kind, the list is sorted by start,
  no closed session ends before it starts, and within each zone every session ends before
  every later one (so that only the last session of a zone can be open).
  \<open>bounded_state\<close> is the loop invariant of the builder on events in time order, with
  \<open>k\<close> the kind of the timestamps and \<open>B\<close> a bound on those seen so far.
\<close>

definition pos_event :: "journey_event \<Rightarrow> bool" where
  "pos_event e = (case ev_zone e of None \<Rightarrow> False | Some z \<Rightarrow> is_pos_zone z \<and> relevant z e)"

definition chronological :: "(string \<Rightarrow> datetime option) \<Rightarrow> journey_event list \<Rightarrow> bool" where
  "chronological f evs =
     (parse_failure f evs = None \<and>
      (let ts = map (event_time f) (filter pos_event evs)
       in None \<notin> set ts
          \<and> (\<forall>a \<in> set ts. \<forall>b \<in> set ts. is_aware (the a) = is_aware (the b))
          \<and> sorted (map (\<lambda>t. micros (the t)) ts)))"

definition ends_before :: "session \<Rightarrow> session \<Rightarrow> bool" where
  "ends_before a b = (case s_end a of None \<Rightarrow> False | Some e \<Rightarrow> micros e \<le> start_key b)"

definition session_times :: "session \<Rightarrow> datetime list" where
  "session_times s =
     (case s_start s of None \<Rightarrow> [] | Some d \<Rightarrow> [d]) @ (case s_end s of None \<Rightarrow> [] | Some d \<Rightarrow> [d])"

definition one_kind :: "session list \<Rightarrow> bool" where
  "one_kind ss =
     (\<forall>a \<in> set (concat (map session_times ss)).
        \<forall>b \<in> set (concat (map session_times ss)). is_aware a = is_aware b)"

definition well_formed :: "session list \<Rightarrow> bool" where
  "well_formed ss =
     ((\<forall>s \<in> set ss. s_start s \<noteq> None)
      \<and> one_kind ss
      \<and> sorted (map start_key ss)
      \<and> (\<forall>s \<in> set ss. case s_end s of None \<Rightarrow> True | Some e \<Rightarrow> start_key s \<le> micros e)
      \<and> (\<forall>z \<in> s_zone ` set ss. sorted_wrt ends_before (filter (\<lambda>s. s_zone s = z) ss)))"

definition bounded_state ::
  "bool \<Rightarrow> int \<Rightarrow> session list \<times> (string \<times> datetime option) list \<Rightarrow> bool" where
  "bounded_state k B st =
     (case st of (sessions, opens) \<Rightarrow>
        (\<forall>x \<in> set sessions. \<exists>s e. s_start x = Some s \<and> s_end x = Some e
            \<and> is_aware s = k \<and> is_aware e = k \<and> micros s \<le> micros e \<and> micros e \<le> B)
      \<and> (\<forall>(z, v) \<in> set opens. \<exists>s. v = Some s \<and> is_aware s = k \<and> micros s \<le> B
            \<and> (\<forall>x \<in> set sessions. s_zone x = z \<longrightarrow> micros (the (s_end x)) \<le> micros s))
      \<and> sorted_wrt (\<lambda>a b. s_zone a = s_zone b \<longrightarrow> ends_before a b) sessions)"

section \<open>Occupancy replay: merge order, grace matching, occupancy\<close>

lemma set_merge_event_streams: "set (merge_event_streams xs ys) = set xs \<union> set ys"
  by (induction xs ys rule: merge_event_streams.induct) auto

lemma sorted_one_source:
  "sorted (map ts_ms xs) \<Longrightarrow> list_all is_Xovis xs \<or> list_all is_Acc xs \<Longrightarrow>
   sorted_wrt sensor_first xs"
  by (induction xs)
     (auto simp: sensor_first_def list_all_iff UnifiedEvent.is_Xovis_def UnifiedEvent.is_Acc_def)

lemma sorted_merge_event_streams:
  "\<lbrakk>list_all is_Xovis xs; list_all is_Acc ys; sorted (map ts_ms xs); sorted (map ts_ms ys)\<rbrakk>
   \<Longrightarrow> sorted_wrt sensor_first (merge_event_streams xs ys)"
proof (induction xs ys rule: merge_event_streams.induct)
  case (1 ys)
  then show ?case by (simp add: sorted_one_source)
next
  case (2 v va)
  then show ?case by (simp add: sorted_one_source del: sorted_wrt.simps list.map)
next
  case (3 x xs y ys)
  then show ?case
    by (cases x; cases y)
       (auto simp: sensor_first_def key_less_def set_merge_event_streams list_all_iff
          UnifiedEvent.is_Xovis_def UnifiedEvent.is_Acc_def)
qed

lemma grace_scan_code:
  "grace_scan zone_exits cutoff cands =
     sort (remdups (filter (\<lambda>x. x \<notin> set cands)
       (map exit_track_id (filter (\<lambda>ex. exit_time ex \<ge> cutoff) zone_exits))))"
proof -
  have "set (map exit_track_id (filter (\<lambda>ex. exit_time ex \<ge> cutoff) zone_exits)) - set cands
      = set (filter (\<lambda>x. x \<notin> set cands)
          (map exit_track_id (filter (\<lambda>ex. exit_time ex \<ge> cutoff) zone_exits)))"
    by auto
  then show ?thesis
    unfolding grace_scan_def by (simp only: sorted_list_of_set_sort_remdups)
qed

lemma entry_then_payment:
  "names name = Some Z \<Longrightarrow> Z \<in> zones \<Longrightarrow>
   map candidates (fst (replay_and_evaluate
     (merge_event_streams [Xovis 1000 ''ZONE_ENTRY'' P Z] [Acc 1000 rc k (Some name)])
     names zones g)) = [[P]]"
  by (simp add: replay_and_evaluate_def replay_loop_def initial_state_def key_less_def Let_def)

lemma exit_then_payment_in_grace:
  "names name = Some Z \<Longrightarrow> Z \<in> zones \<Longrightarrow> 0 \<le> g \<Longrightarrow>
   map (\<lambda>r. (match_type r, grace_candidates r, candidates r))
     (fst (replay_and_evaluate
        (merge_event_streams [Xovis 1000 ''ZONE_EXIT'' P Z] [Acc (1000 + g) rc k (Some name)])
        names zones g)) = [(''grace'', Some [P], [])]"
  by (simp add: replay_and_evaluate_def replay_loop_def initial_state_def key_less_def Let_def
        grace_scan_code)

lemma exit_then_payment_after_grace:
  "names name = Some Z \<Longrightarrow> Z \<in> zones \<Longrightarrow> 0 \<le> g \<Longrightarrow>
   map (\<lambda>r. (match_type r, grace_candidates r, candidates r))
     (fst (replay_and_evaluate
        (merge_event_streams [Xovis 1000 ''ZONE_EXIT'' P Z] [Acc (1000 + g + 1) rc k (Some name)])
        names zones g)) = [(''none'', None, [])]"
  by (simp add: replay_and_evaluate_def replay_loop_def initial_state_def key_less_def Let_def
        grace_scan_code)

lemma step_disjoint:
  "list_all grace_disjoint (results st) \<Longrightarrow>
   list_all grace_disjoint (results (replay_step names zones g st e))"
  by (cases e) (auto simp: Let_def grace_disjoint_def grace_scan_def split: option.splits)

lemma loop_disjoint:
  "list_all grace_disjoint (results st) \<Longrightarrow>
   list_all grace_disjoint (results (foldl (replay_step names zones g) st evs))"
  by (induction evs arbitrary: st) (auto intro: step_disjoint)

lemma replay_disjoint: "list_all grace_disjoint (fst (replay_and_evaluate evs names zones g))"
  by (simp add: replay_and_evaluate_def replay_loop_def Let_def loop_disjoint initial_state_def)

lemma ene_Nil: "entered_not_exited [] Z = {}"
  by (simp add: entered_not_exited_def)

lemma ene_snoc:
  "entered_not_exited (P @ [e]) Z =
     (if \<exists>t p. e = Xovis t ''ZONE_ENTRY'' p Z then insert (track_id e) (entered_not_exited P Z)
      else if \<exists>t p. e = Xovis t ''ZONE_EXIT'' p Z then entered_not_exited P Z - {track_id e}
      else entered_not_exited P Z)"
proof -
  have idx: "\<And>Q. (\<exists>i < length (P @ [e]). Q i) \<longleftrightarrow> ((\<exists>i < length P. Q i) \<or> Q (length P))"
    by (auto simp: less_Suc_eq)
  show ?thesis
    unfolding entered_not_exited_def
    apply (rule set_eqI)
    apply (simp only: mem_Collect_eq idx)
    apply (auto simp: nth_append less_Suc_eq split: if_splits)
    done
qed

lemma occ_step:
  "Z \<in> zones \<Longrightarrow> occupancy (replay_step names zones g st e) Z =
     (if \<exists>t p. e = Xovis t ''ZONE_ENTRY'' p Z then insert (track_id e) (occupancy st Z)
      else if \<exists>t p. e = Xovis t ''ZONE_EXIT'' p Z then occupancy st Z - {track_id e}
      else occupancy st Z)"
  by (cases e) (auto simp: Let_def split: option.splits)

lemma occ_loop:
  "Z \<in> zones \<Longrightarrow> occupancy (replay_loop names zones g evs) Z = entered_not_exited evs Z"
proof (induction evs rule: rev_induct)
  case Nil
  then show ?case by (simp add: replay_loop_def initial_state_def ene_Nil)
next
  case (snoc e evs)
  then show ?case
    by (simp only: replay_loop_def foldl_append foldl.simps occ_step ene_snoc)
qed

lemma occ_untracked: "Z \<notin> zones \<Longrightarrow> occupancy (replay_loop names zones g evs) Z = {}"
proof (induction evs rule: rev_induct)
  case Nil
  then show ?case by (simp add: replay_loop_def initial_state_def)
next
  case (snoc e evs)
  then show ?case
    by (cases e) (auto simp: replay_loop_def Let_def split: option.splits)
qed

text \<open>
  C4. With grace window \<open>g \<ge> 0\<close>, a zone \<open>Z\<close> that is tracked and that the payment's zone
  name resolves to: after EXIT(P, Z, 1000) a payment at \<open>1000 + g\<close> finds nobody in the
  zone and is matched by grace with exactly \<open>P\<close> as grace candidate; the same payment at
  \<open>1000 + g + 1\<close> is unmatched. In every replay, no result has a grace candidate that is
  also one of its candidates.
\<close>

theorem grace_matching:
  "(names name = Some Z \<and> Z \<in> zones \<and> 0 \<le> g \<longrightarrow>
      map (\<lambda>r. (match_type r, grace_candidates r, candidates r))
        (fst (replay_and_evaluate
           (merge_event_streams [Xovis 1000 ''ZONE_EXIT'' P Z] [Acc (1000 + g) rc k (Some name)])
           names zones g)) = [(''grace'', Some [P], [])]
    \<and> map (\<lambda>r. (match_type r, grace_candidates r, candidates r))
        (fst (replay_and_evaluate
           (merge_event_streams [Xovis 1000 ''ZONE_EXIT'' P Z]
              [Acc (1000 + g + 1) rc k (Some name)])
           names zones g)) = [(''none'', None, [])])
   \<and> list_all grace_disjoint (fst (replay_and_evaluate evs names zones g))"
proof (intro conjI impI)
  assume h: "names name = Some Z \<and> Z \<in> zones \<and> 0 \<le> g"
  from h show "map (\<lambda>r. (match_type r, grace_candidates r, candidates r))
        (fst (replay_and_evaluate
           (merge_event_streams [Xovis 1000 ''ZONE_EXIT'' P Z] [Acc (1000 + g) rc k (Some name)])
           names zones g)) = [(''grace'', Some [P], [])]"
    by (intro exit_then_payment_in_grace) simp_all
  from h show "map (\<lambda>r. (match_type r, grace_candidates r, candidates r))
        (fst (replay_and_evaluate
           (merge_event_streams [Xovis 1000 ''ZONE_EXIT'' P Z]
              [Acc (1000 + g + 1) rc k (Some name)])
           names zones g)) = [(''none'', None, [])]"
    by (intro exit_then_payment_after_grace) simp_all
next
  show "list_all grace_disjoint (fst (replay_and_evaluate evs names zones g))"
    by (rule replay_disjoint)
qed

theorem grace_matching_witness:
  "map (\<lambda>r. (match_type r, grace_candidates r, candidates r))
     (fst (replay_and_evaluate
        (merge_event_streams [Xovis 1000 ''ZONE_EXIT'' 5 7] [Acc 3500 None ''k'' (Some ''POS_1'')])
        [''POS_1'' \<mapsto> 7] {7} 2500)) = [(''grace'', Some [5], [])]
   \<and> map (\<lambda>r. (match_type r, grace_candidates r, candidates r))
     (fst (replay_and_evaluate
        (merge_event_streams [Xovis 1000 ''ZONE_EXIT'' 5 7] [Acc 3501 None ''k'' (Some ''POS_1'')])
        [''POS_1'' \<mapsto> 7] {7} 2500)) = [(''none'', None, [])]
   \<and> list_all grace_disjoint (fst (replay_and_evaluate
        [Xovis 1000 ''ZONE_ENTRY'' 6 7, Xovis 1200 ''ZONE_EXIT'' 5 7,
         Acc 1300 None ''k'' (Some ''POS_1'')] [''POS_1'' \<mapsto> 7] {7} 2500))"
  using grace_matching [of "[''POS_1'' \<mapsto> 7]" "''POS_1''" 7 "{7}" 2500 5 None "''k''"
      "[Xovis 1000 ''ZONE_ENTRY'' 6 7, Xovis 1200 ''ZONE_EXIT'' 5 7,
        Acc 1300 None ''k'' (Some ''POS_1'')]"]
  by simp

text \<open>
  C5. When both inputs are sorted by timestamp, the merged sequence is sorted by
  timestamp and never has a payment ahead of a sensor event of the same timestamp; and
  an ENTRY of \<open>P\<close> to a tracked zone \<open>Z\<close> at 1000 followed by nothing but a payment at
  \<open>Z\<close> at 1000 gives that payment the candidates \<open>[P]\<close>.
\<close>

theorem tie_break_sensor_first:
  "(list_all is_Xovis xs \<and> list_all is_Acc ys \<and> sorted (map ts_ms xs) \<and> sorted (map ts_ms ys)
      \<longrightarrow> sorted_wrt sensor_first (merge_event_streams xs ys))
   \<and> (names name = Some Z \<and> Z \<in> zones \<longrightarrow>
        map candidates (fst (replay_and_evaluate
          (merge_event_streams [Xovis 1000 ''ZONE_ENTRY'' P Z] [Acc 1000 rc k (Some name)])
          names zones g)) = [[P]])"
proof (intro conjI impI)
  assume "list_all is_Xovis xs \<and> list_all is_Acc ys \<and> sorted (map ts_ms xs)
    \<and> sorted (map ts_ms ys)"
  then show "sorted_wrt sensor_first (merge_event_streams xs ys)"
    by (intro sorted_merge_event_streams) simp_all
next
  assume "names name = Some Z \<and> Z \<in> zones"
  then show "map candidates (fst (replay_and_evaluate
          (merge_event_streams [Xovis 1000 ''ZONE_ENTRY'' P Z] [Acc 1000 rc k (Some name)])
          names zones g)) = [[P]]"
    by (intro entry_then_payment) simp_all
qed

theorem tie_break_sensor_first_witness:
  "merge_event_streams
      [Xovis 1000 ''ZONE_ENTRY'' 5 7, Xovis 2000 ''ZONE_EXIT'' 5 7]
      [Acc 1000 None ''k'' (Some ''POS_1''), Acc 2000 None ''k'' (Some ''POS_1'')]
    = [Xovis 1000 ''ZONE_ENTRY'' 5 7, Acc 1000 None ''k'' (Some ''POS_1''),
       Xovis 2000 ''ZONE_EXIT'' 5 7, Acc 2000 None ''k'' (Some ''POS_1'')]
   \<and> sorted_wrt sensor_first (merge_event_streams
      [Xovis 1000 ''ZONE_ENTRY'' 5 7, Xovis 2000 ''ZONE_EXIT'' 5 7]
      [Acc 1000 None ''k'' (Some ''POS_1''), Acc 2000 None ''k'' (Some ''POS_1'')])
   \<and> map candidates (fst (replay_and_evaluate
        (merge_event_streams [Xovis 1000 ''ZONE_ENTRY'' 5 7] [Acc 1000 None ''k'' (Some ''POS_1'')])
        [''POS_1'' \<mapsto> 7] {7} 2500)) = [[5]]"
  using tie_break_sensor_first [of
      "[Xovis 1000 ''ZONE_ENTRY'' 5 7, Xovis 2000 ''ZONE_EXIT'' 5 7]"
      "[Acc 1000 None ''k'' (Some ''POS_1''), Acc 2000 None ''k'' (Some ''POS_1'')]"
      "[''POS_1'' \<mapsto> 7]" "''POS_1''" 7 "{7}" 5 None "''k''" 2500]
  by (simp add: key_less_def)

lemma ene_restricted:
  assumes "restricted_to zones evs" and "Z \<notin> zones"
  shows "entered_not_exited (take n evs) Z = {}"
proof -
  have "\<And>i t p. i < length (take n evs) \<Longrightarrow> take n evs ! i \<noteq> Xovis t ''ZONE_ENTRY'' p Z"
  proof
    fix i t p
    assume i: "i < length (take n evs)" and e: "take n evs ! i = Xovis t ''ZONE_ENTRY'' p Z"
    from i have "take n evs ! i \<in> set (take n evs)" by (rule nth_mem)
    then have "Xovis t ''ZONE_ENTRY'' p Z \<in> set evs" using e by (auto dest: in_set_takeD)
    with assms(1) have "Z \<in> zones" by (auto simp: restricted_to_def list_all_iff)
    with assms(2) show False by simp
  qed
  then show ?thesis by (auto simp: entered_not_exited_def)
qed

lemma occ_restricted:
  "restricted_to zones evs \<Longrightarrow>
   occupancy (replay_loop names zones g (take n evs)) Z = entered_not_exited (take n evs) Z"
  by (cases "Z \<in> zones") (simp_all add: occ_loop occ_untracked ene_restricted)

text \<open>
  C6. When the sensor events of the merged sequence are restricted to the zones of
  interest, then after any prefix of it (its first \<open>n\<close> events) and for every zone \<open>Z\<close>,
  the occupancy of \<open>Z\<close> is exactly the set of ids with an ENTRY to \<open>Z\<close> that no EXIT from
  \<open>Z\<close> follows within the prefix. For a zone of \<open>pos_zone_ids\<close> this holds for any
  sequence.
\<close>

theorem occupancy_exact:
  "(restricted_to zones evs \<longrightarrow>
      occupancy (replay_loop names zones g (take n evs)) Z = entered_not_exited (take n evs) Z)
   \<and> (Z \<in> zones \<longrightarrow>
      occupancy (replay_loop names zones g (take n evs)) Z = entered_not_exited (take n evs) Z)"
  by (intro conjI impI) (erule occ_restricted, erule occ_loop)

theorem occupancy_exact_witness:
  "restricted_to {7, 9}
     [Xovis 1000 ''ZONE_ENTRY'' 5 7, Xovis 1500 ''ZONE_ENTRY'' 6 7,
      Acc 1600 None ''k'' (Some ''POS_1''), Xovis 2000 ''ZONE_EXIT'' 5 7,
      Xovis 2100 ''ZONE_ENTRY'' 8 9]
   \<and> entered_not_exited
     (take 4 [Xovis 1000 ''ZONE_ENTRY'' 5 7, Xovis 1500 ''ZONE_ENTRY'' 6 7,
      Acc 1600 None ''k'' (Some ''POS_1''), Xovis 2000 ''ZONE_EXIT'' 5 7,
      Xovis 2100 ''ZONE_ENTRY'' 8 9]) 7 = {6}
   \<and> entered_not_exited
     (take 2 [Xovis 1000 ''ZONE_ENTRY'' 5 7, Xovis 1500 ''ZONE_ENTRY'' 6 7,
      Acc 1600 None ''k'' (Some ''POS_1''), Xovis 2000 ''ZONE_EXIT'' 5 7,
      Xovis 2100 ''ZONE_ENTRY'' 8 9]) 7 = {5, 6}"
proof -
  let ?evs = "[Xovis 1000 ''ZONE_ENTRY'' 5 7, Xovis 1500 ''ZONE_ENTRY'' 6 7,
      Acc 1600 None ''k'' (Some ''POS_1''), Xovis 2000 ''ZONE_EXIT'' 5 7,
      Xovis 2100 ''ZONE_ENTRY'' 8 9]"
  have r: "restricted_to {7, 9} ?evs"
    by (simp add: restricted_to_def)
  have "occupancy (replay_loop [''POS_1'' \<mapsto> 7] {7, 9} 2500 (take 4 ?evs)) 7
      = entered_not_exited (take 4 ?evs) 7"
    using occupancy_exact [of "{7, 9}" ?evs "[''POS_1'' \<mapsto> 7]" 2500 4 7] r by blast
  moreover have "occupancy (replay_loop [''POS_1'' \<mapsto> 7] {7, 9} 2500 (take 4 ?evs)) 7 = {6}"
    by (auto simp add: replay_loop_def initial_state_def Let_def grace_scan_def)
  moreover have "occupancy (replay_loop [''POS_1'' \<mapsto> 7] {7, 9} 2500 (take 2 ?evs)) 7
      = entered_not_exited (take 2 ?evs) 7"
    using occupancy_exact [of "{7, 9}" ?evs "[''POS_1'' \<mapsto> 7]" 2500 2 7] r by blast
  moreover have "occupancy (replay_loop [''POS_1'' \<mapsto> 7] {7, 9} 2500 (take 2 ?evs)) 7 = {5, 6}"
    by (auto simp add: replay_loop_def initial_state_def Let_def grace_scan_def)
  ultimately show ?thesis using r by simp
qed

section \<open>Retrospective matcher: group tracks never are candidates\<close>

lemma candidates_below_base:
  "tid \<in> set (candidates_at z t (fst (merged_by_track_for zes mw c)) lb eg)
   \<Longrightarrow> tid < GROUP_ID_BASE"
  by (auto simp: candidates_at_def merged_by_track_for_def Let_def)

text \<open>
  C10. At the initial cutoff (the payment time) and at the corrected cutoff (payment
  time plus grace), every candidate of the retrospective matcher is below
  \<open>GROUP_ID_BASE = 2147483648\<close>; the occupancy replayer, which has no such filter,
  reports the group track 2147483648 as a candidate.
\<close>

theorem retrospective_candidates_person_tracks:
  "GROUP_ID_BASE = 2147483648
   \<and> (\<forall>tid \<in> set (candidates_at zone acc_time
          (fst (merged_by_track_for zone_events merge_window_ms acc_time))
          lookback_ms exit_grace_ms). tid < GROUP_ID_BASE)
   \<and> (\<forall>tid \<in> set (candidates_at zone acc_time
          (fst (merged_by_track_for zone_events merge_window_ms (acc_time + grace_ms)))
          lookback_ms exit_grace_ms). tid < GROUP_ID_BASE)
   \<and> map candidates (fst (replay_and_evaluate
        [Xovis 1000 ''ZONE_ENTRY'' 2147483648 7, Acc 1000 None ''k'' (Some ''POS_1'')]
        [''POS_1'' \<mapsto> 7] {7} 2500)) = [[2147483648]]"
proof -
  have "map candidates (fst (replay_and_evaluate
        [Xovis 1000 ''ZONE_ENTRY'' 2147483648 7, Acc 1000 None ''k'' (Some ''POS_1'')]
        [''POS_1'' \<mapsto> 7] {7} 2500)) = [[2147483648]]"
    by (simp add: replay_and_evaluate_def replay_loop_def initial_state_def Let_def)
  then show ?thesis
    using candidates_below_base by (simp add: GROUP_ID_BASE_def)
qed

theorem retrospective_candidates_person_tracks_witness:
  "candidates_at 7 2000
     (fst (merged_by_track_for
        [(Some 100, 1000, ''ZONE_ENTRY'', 5, 7), (Some 110, 1100, ''ZONE_ENTRY'', 2147483650, 7),
         (Some 3100, 3000, ''ZONE_EXIT'', 5, 7), (None, 4000, ''ZONE_ENTRY'', 6, 7)]
        10000 2000)) 60000 1500 = [5]
   \<and> list_all (\<lambda>tid. tid < GROUP_ID_BASE)
       (candidates_at 7 2000
         (fst (merged_by_track_for
            [(Some 100, 1000, ''ZONE_ENTRY'', 5, 7), (Some 110, 1100, ''ZONE_ENTRY'', 2147483650, 7),
             (Some 3100, 3000, ''ZONE_EXIT'', 5, 7), (None, 4000, ''ZONE_ENTRY'', 6, 7)]
            10000 2000)) 60000 1500)"
proof -
  let ?zes = "[(Some 100, 1000, ''ZONE_ENTRY'', 5, 7), (Some 110, 1100, ''ZONE_ENTRY'', 2147483650, 7),
         (Some 3100, 3000, ''ZONE_EXIT'', 5, 7), (None, 4000, ''ZONE_ENTRY'', 6, 7)]
         :: zone_event list"
  have "candidates_at 7 2000 (fst (merged_by_track_for ?zes 10000 2000)) 60000 1500 = [5]"
    by (simp add: merged_by_track_for_def build_intervals_def merge_intervals_def
          setdefault_append_def GROUP_ID_BASE_def candidates_at_def)
  moreover have "list_all (\<lambda>tid. tid < GROUP_ID_BASE)
       (candidates_at 7 2000 (fst (merged_by_track_for ?zes 10000 2000)) 60000 1500)"
    using retrospective_candidates_person_tracks [of 7 2000 ?zes 10000 60000 1500 0]
    by (simp add: list_all_iff)
  ultimately show ?thesis by simp
qed

section \<open>Session builder: what each event does, and what the output holds\<close>

lemma parse_failure_Nil: "parse_failure f [] = None"
  by (simp add: parse_failure_def)

lemma parse_failure_snoc:
  "parse_failure f (evs @ [e]) =
     (case parse_failure f evs of
        Some err \<Rightarrow> Some err
      | None \<Rightarrow> if pos_zone_event e \<and> isl (parse_ts f (ev_ts e))
                then Some (projl (parse_ts f (ev_ts e))) else None)"
  by (simp add: parse_failure_def split: list.splits)

lemma last_open_Nil: "last_open f [] z = None"
  by (simp add: last_open_def)

lemma last_open_snoc:
  "last_open f (evs @ [e]) z =
     (if relevant z e
      then (if ev_type e = Some ''zone_entry'' then Some (event_time f e) else None)
      else last_open f evs z)"
  by (simp add: last_open_def)

lemma closed_sessions_Nil: "closed_sessions f [] = []"
  by (simp add: closed_sessions_def)

lemma closed_sessions_snoc:
  "closed_sessions f (evs @ [e]) = closed_sessions f evs @ emitted_at f evs e"
proof -
  let ?F = "\<lambda>j. emitted_at f (take j (evs @ [e])) ((evs @ [e]) ! j)"
  have a: "map ?F [0..<length evs] = map (\<lambda>j. emitted_at f (take j evs) (evs ! j)) [0..<length evs]"
    by (rule map_cong) (simp_all add: nth_append)
  have b: "?F (length evs) = emitted_at f evs e"
    by simp
  have "closed_sessions f (evs @ [e]) = concat (map ?F ([0..<length evs] @ [length evs]))"
    unfolding closed_sessions_def by (simp only: length_append_singleton upt_Suc_append [OF le0])
  also have "\<dots> = concat (map ?F [0..<length evs]) @ ?F (length evs)"
    by (simp only: map_append concat_append list.map concat.simps append_Nil2)
  also have "\<dots> = closed_sessions f evs @ emitted_at f evs e"
    unfolding closed_sessions_def by (simp only: a b)
  finally show ?thesis .
qed

lemma raw_loop_Nil: "raw_loop f [] = Inr ([], [])"
  by (simp add: raw_loop_def)

lemma raw_loop_snoc:
  "raw_loop f (evs @ [e]) = (case raw_loop f evs of Inl err \<Rightarrow> Inl err | Inr st \<Rightarrow> raw_step f st e)"
  by (simp add: raw_loop_def)




lemma raw_loop_inv:
  "raw_loop f evs = Inr (sessions, opens) \<Longrightarrow>
   sessions = closed_sessions f evs
   \<and> distinct (map fst opens)
   \<and> (\<forall>z. map_of opens z = (if is_pos_zone z then last_open f evs z else None))"
proof (induction evs arbitrary: sessions opens rule: rev_induct)
  case Nil
  then show ?case by (simp add: raw_loop_Nil closed_sessions_Nil last_open_Nil)
next
  case (snoc e evs)
  from snoc.prems obtain s0 o0 where st: "raw_loop f evs = Inr (s0, o0)"
    and step: "raw_step f (s0, o0) e = Inr (sessions, opens)"
    by (cases "raw_loop f evs") (auto simp: raw_loop_snoc)
  from snoc.IH [OF st] have s: "s0 = closed_sessions f evs" and d: "distinct (map fst o0)"
    and m: "\<And>z. map_of o0 z = (if is_pos_zone z then last_open f evs z else None)"
    by simp_all
  show ?case
  proof (cases "ev_zone e")
    case None
    then show ?thesis using s d m step
      by (auto simp add: raw_step_def closed_sessions_snoc emitted_at_def
          last_open_snoc relevant_def)
  next
    case (Some zone)
    show ?thesis
    proof (cases "is_pos_zone zone")
      case False
      then show ?thesis using s d m Some step
        by (auto simp add: raw_step_def closed_sessions_snoc emitted_at_def
          last_open_snoc relevant_def)
    next
      case True
      from step True Some obtain t where t: "parse_ts f (ev_ts e) = Inr t"
        by (cases "parse_ts f (ev_ts e)") (auto simp: raw_step_def)
      then have et: "event_time f e = t" by (simp add: event_time_def)
      have mz: "map_of o0 zone = last_open f evs zone" using m [of zone] True by simp
      consider (entry) "ev_type e = Some ''zone_entry''"
        | (exit) "ev_type e \<noteq> Some ''zone_entry''" "ev_type e = Some ''zone_exit''"
        | (other) "ev_type e \<noteq> Some ''zone_entry''" "ev_type e \<noteq> Some ''zone_exit''"
        by blast
      then show ?thesis
      proof cases
        case entry
        with step True Some t have eq: "sessions = s0" "opens = AList.update zone t o0"
          by (simp_all add: raw_step_def)
        show ?thesis unfolding eq using s d entry Some True
          by (auto simp: m closed_sessions_snoc emitted_at_def last_open_snoc relevant_def et
              distinct_update update_conv')
      next
        case other
        with step True Some t have eq: "sessions = s0" "opens = o0"
          by (simp_all add: raw_step_def)
        show ?thesis unfolding eq using s d other Some True
          by (auto simp: m closed_sessions_snoc emitted_at_def last_open_snoc relevant_def)
      next
        case exit
        show ?thesis
        proof (cases "map_of o0 zone")
          case None
          with step True Some t exit have eq: "sessions = s0" "opens = o0"
            by (simp_all add: raw_step_def)
          show ?thesis unfolding eq using s d exit Some True None mz
            by (auto simp: m closed_sessions_snoc emitted_at_def last_open_snoc relevant_def)
        next
          case outer: (Some v)
          show ?thesis
          proof (cases v)
            case None
            with outer step True Some t exit
            have eq: "sessions = s0" "opens = AList.delete zone o0"
              by (simp_all add: raw_step_def)
            show ?thesis unfolding eq using s d exit Some True None outer mz
              by (auto simp: m closed_sessions_snoc emitted_at_def last_open_snoc relevant_def
                  distinct_delete delete_conv')
          next
            case inner: (Some entry)
            with outer step True Some t exit
            have eq: "sessions = s0 @ [(zone, Some entry, t)]" "opens = AList.delete zone o0"
              by (simp_all add: raw_step_def)
            show ?thesis unfolding eq using s d exit Some True inner outer mz
              by (auto simp: m closed_sessions_snoc emitted_at_def last_open_snoc relevant_def et
                  distinct_delete delete_conv')
          qed
        qed
      qed
    qed
  qed
qed

















section \<open>Session builder: order and overlap of the output\<close>

lemma set_update_subset: "x \<in> set (AList.update k v al) \<Longrightarrow> x = (k, v) \<or> x \<in> set al"
  by (induction al) (auto split: if_splits)

lemma set_delete_iff: "x \<in> set (AList.delete k al) \<longleftrightarrow> x \<in> set al \<and> fst x \<noteq> k"
  by (induction al) auto

lemma bounded_state_mono: "bounded_state k B st \<Longrightarrow> B \<le> B' \<Longrightarrow> bounded_state k B' st"
  unfolding bounded_state_def by (cases st) (fastforce)

lemma raw_step_not_pos:
  "\<not> pos_event e \<Longrightarrow> (pos_zone_event e \<Longrightarrow> \<exists>t. parse_ts f (ev_ts e) = Inr t) \<Longrightarrow>
   raw_step f st e = Inr st"
  by (cases st)
     (auto simp: raw_step_def pos_event_def pos_zone_event_def relevant_def split: option.splits)

lemma bounded_state_step:
  assumes b: "bounded_state k B st" and p: "pos_event e"
    and t: "parse_ts f (ev_ts e) = Inr (Some d)" and kd: "is_aware d = k" and le: "B \<le> micros d"
  shows "\<exists>st'. raw_step f st e = Inr st' \<and> bounded_state k (micros d) st'"
proof -
  obtain sessions opens where st: "st = (sessions, opens)" by (cases st)
  from p obtain z where z: "ev_zone e = Some z" "is_pos_zone z"
    and ty: "ev_type e = Some ''zone_entry'' \<or> ev_type e = Some ''zone_exit''"
    by (auto simp: pos_event_def relevant_def split: option.splits)
  from b st have b1: "\<forall>x \<in> set sessions. \<exists>s e. s_start x = Some s \<and> s_end x = Some e
            \<and> is_aware s = k \<and> is_aware e = k \<and> micros s \<le> micros e \<and> micros e \<le> B"
    and b2: "\<forall>(z, v) \<in> set opens. \<exists>s. v = Some s \<and> is_aware s = k \<and> micros s \<le> B
            \<and> (\<forall>x \<in> set sessions. s_zone x = z \<longrightarrow> micros (the (s_end x)) \<le> micros s)"
    and b3: "sorted_wrt (\<lambda>a b. s_zone a = s_zone b \<longrightarrow> ends_before a b) sessions"
    by (simp_all add: bounded_state_def)
  show ?thesis
  proof (cases "ev_type e = Some ''zone_entry''")
    case True
    have step: "raw_step f st e = Inr (sessions, AList.update z (Some d) opens)"
      using True z by (simp add: st raw_step_def t)
    have "\<forall>(z', v) \<in> set (AList.update z (Some d) opens). \<exists>s. v = Some s \<and> is_aware s = k
            \<and> s \<in> {s. micros s \<le> micros d}
            \<and> (\<forall>x \<in> set sessions. s_zone x = z' \<longrightarrow> micros (the (s_end x)) \<le> micros s)"
    proof (clarify)
      fix z' v assume "(z', v) \<in> set (AList.update z (Some d) opens)"
      then consider "(z', v) = (z, Some d)" | "(z', v) \<in> set opens"
        using set_update_subset by fastforce
      then show "\<exists>s. v = Some s \<and> is_aware s = k \<and> s \<in> {s. micros s \<le> micros d}
            \<and> (\<forall>x \<in> set sessions. s_zone x = z' \<longrightarrow> micros (the (s_end x)) \<le> micros s)"
      proof cases
        case 1
        then show ?thesis using b1 le kd by fastforce
      next
        case 2
        then show ?thesis using b2 le by fastforce
      qed
    qed
    moreover have "\<forall>x \<in> set sessions. \<exists>s e. s_start x = Some s \<and> s_end x = Some e
            \<and> is_aware s = k \<and> is_aware e = k \<and> micros s \<le> micros e \<and> micros e \<le> micros d"
      using b1 le by fastforce
    ultimately have "bounded_state k (micros d) (sessions, AList.update z (Some d) opens)"
      using b3 by (simp add: bounded_state_def)
    with step show ?thesis by simp
  next
    case False
    with ty have ex: "ev_type e = Some ''zone_exit''" by simp
    show ?thesis
    proof (cases "map_of opens z")
      case None
      then have "raw_step f st e = Inr st" using ex z False
        by (simp add: st raw_step_def t)
      then show ?thesis using bounded_state_mono [OF b le] by simp
    next
      case (Some v)
      then have mem: "(z, v) \<in> set opens" by (rule map_of_SomeD)
      with b2 obtain s where s: "v = Some s" "is_aware s = k" "micros s \<le> B"
        "\<forall>x \<in> set sessions. s_zone x = z \<longrightarrow> micros (the (s_end x)) \<le> micros s"
        by fastforce
      have step: "raw_step f st e = Inr (sessions @ [(z, Some s, Some d)], AList.delete z opens)"
        using ex z False Some s by (simp add: st raw_step_def t)
      have c1: "\<forall>x \<in> set (sessions @ [(z, Some s, Some d)]).
          \<exists>s e. s_start x = Some s \<and> s_end x = Some e
            \<and> is_aware s = k \<and> is_aware e = k \<and> micros s \<le> micros e \<and> micros e \<le> micros d"
        using b1 le s kd by (fastforce simp: s_start_def s_end_def)
      have c2: "\<forall>(z', v) \<in> set (AList.delete z opens). \<exists>s'. v = Some s' \<and> is_aware s' = k
            \<and> micros s' \<le> micros d
            \<and> (\<forall>x \<in> set (sessions @ [(z, Some s, Some d)]).
                  s_zone x = z' \<longrightarrow> micros (the (s_end x)) \<le> micros s')"
        using b2 le by (fastforce simp: set_delete_iff s_zone_def)
      have c3: "sorted_wrt (\<lambda>a b. s_zone a = s_zone b \<longrightarrow> ends_before a b)
          (sessions @ [(z, Some s, Some d)])"
        using b3 b1 s by (fastforce simp: sorted_wrt_append ends_before_def start_key_def
            s_start_def s_zone_def)
      have "bounded_state k (micros d) (sessions @ [(z, Some s, Some d)], AList.delete z opens)"
        unfolding bounded_state_def using c1 c2 c3 by simp
      with step show ?thesis by simp
    qed
  qed
qed

lemma chronological_Nil: "chronological f []"
  by (simp add: chronological_def parse_failure_Nil)

lemma chronological_butlast: "chronological f (evs @ [e]) \<Longrightarrow> chronological f evs"
  by (auto simp: chronological_def Let_def parse_failure_snoc sorted_append
        split: option.splits if_splits)

lemma chronological_last_parse:
  "chronological f (evs @ [e]) \<Longrightarrow> pos_zone_event e \<Longrightarrow> \<exists>t. parse_ts f (ev_ts e) = Inr t"
  by (cases "parse_ts f (ev_ts e)")
     (auto simp: chronological_def Let_def parse_failure_snoc split: option.splits if_splits)

lemma pos_event_zone: "pos_event e \<Longrightarrow> pos_zone_event e"
  by (auto simp: pos_event_def pos_zone_event_def split: option.splits)

lemma chronological_last:
  assumes "chronological f (evs @ [e])" and "pos_event e"
  shows "\<exists>d. parse_ts f (ev_ts e) = Inr (Some d) \<and>
           (\<forall>e' \<in> set evs. pos_event e' \<longrightarrow>
              is_aware (the (event_time f e')) = is_aware d
              \<and> micros (the (event_time f e')) \<le> micros d)"
proof -
  from chronological_last_parse [OF assms(1) pos_event_zone [OF assms(2)]]
  obtain t where t: "parse_ts f (ev_ts e) = Inr t" by blast
  then have et: "event_time f e = t" by (simp add: event_time_def)
  let ?ts = "map (event_time f) (filter pos_event evs)"
  have ts: "map (event_time f) (filter pos_event (evs @ [e])) = ?ts @ [t]"
    using assms(2) et by simp
  from assms(1) have n: "None \<notin> set (?ts @ [t])"
    and k: "\<forall>a \<in> set (?ts @ [t]). \<forall>b \<in> set (?ts @ [t]). is_aware (the a) = is_aware (the b)"
    and s: "sorted (map (\<lambda>t. micros (the t)) (?ts @ [t]))"
    unfolding chronological_def Let_def ts by blast+
  from n have "t \<noteq> None" by auto
  then obtain d where d: "t = Some d" by (cases t) simp_all
  have "\<forall>e' \<in> set evs. pos_event e' \<longrightarrow>
              is_aware (the (event_time f e')) = is_aware d
              \<and> micros (the (event_time f e')) \<le> micros d"
  proof (intro ballI impI)
    fix e' assume "e' \<in> set evs" "pos_event e'"
    then have m: "event_time f e' \<in> set ?ts" by simp
    then have m': "event_time f e' \<in> set (?ts @ [t])" by simp
    have tt: "t \<in> set (?ts @ [t])" by simp
    from k m' tt have k': "is_aware (the (event_time f e')) = is_aware (the t)" by blast
    from s have "\<forall>x \<in> set ?ts. micros (the x) \<le> micros (the t)"
      by (simp add: sorted_append)
    with m have "micros (the (event_time f e')) \<le> micros (the t)" by blast
    with k' d show "is_aware (the (event_time f e')) = is_aware d
              \<and> micros (the (event_time f e')) \<le> micros d" by simp
  qed
  with t d show ?thesis by blast
qed

lemma raw_loop_bounded:
  "chronological f evs \<Longrightarrow>
   (\<forall>e \<in> set evs. pos_event e \<longrightarrow>
      is_aware (the (event_time f e)) = k \<and> micros (the (event_time f e)) \<le> B) \<Longrightarrow>
   \<exists>st. raw_loop f evs = Inr st \<and> bounded_state k B st"
proof (induction evs arbitrary: B rule: rev_induct)
  case Nil
  then show ?case by (simp add: raw_loop_Nil bounded_state_def)
next
  case (snoc e evs)
  from snoc.prems(1) have c: "chronological f evs" by (rule chronological_butlast)
  show ?case
  proof (cases "pos_event e")
    case False
    from snoc.IH [OF c, of B] snoc.prems(2)
    obtain st where st: "raw_loop f evs = Inr st" "bounded_state k B st" by auto
    have "raw_step f st e = Inr st"
      using False chronological_last_parse [OF snoc.prems(1)] by (rule raw_step_not_pos)
    with st show ?thesis by (simp add: raw_loop_snoc)
  next
    case True
    from chronological_last [OF snoc.prems(1) True]
    obtain d where d: "parse_ts f (ev_ts e) = Inr (Some d)"
      and before: "\<forall>e' \<in> set evs. pos_event e' \<longrightarrow>
              is_aware (the (event_time f e')) = is_aware d
              \<and> micros (the (event_time f e')) \<le> micros d" by blast
    have et: "event_time f e = Some d" using d by (simp add: event_time_def)
    from snoc.prems(2) True et have kd: "is_aware d = k" and dB: "micros d \<le> B" by simp_all
    from before kd have "\<forall>e' \<in> set evs. pos_event e' \<longrightarrow>
              is_aware (the (event_time f e')) = k
              \<and> micros (the (event_time f e')) \<le> micros d" by simp
    from snoc.IH [OF c this]
    obtain st where st: "raw_loop f evs = Inr st" "bounded_state k (micros d) st" by blast
    from bounded_state_step [OF st(2) True d kd]
    obtain st' where st': "raw_step f st e = Inr st'" "bounded_state k (micros d) st'" by auto
    from st'(2) dB have "bounded_state k B st'" by (rule bounded_state_mono)
    with st st' show ?thesis by (simp add: raw_loop_snoc)
  qed
qed

lemma chronological_kind_bound:
  assumes "chronological f evs"
  shows "\<exists>k B. \<forall>e \<in> set evs. pos_event e \<longrightarrow>
      is_aware (the (event_time f e)) = k \<and> micros (the (event_time f e)) \<le> (B::int)"
proof (cases "filter pos_event evs")
  case Nil
  then have "\<forall>e \<in> set evs. \<not> pos_event e" by (simp add: filter_empty_conv)
  then show ?thesis by blast
next
  case (Cons e0 rest)
  then have "e0 \<in> set (filter pos_event evs)" by simp
  then have e0: "e0 \<in> set evs" "pos_event e0" by simp_all
  let ?k = "is_aware (the (event_time f e0))"
  let ?B = "Max (insert 0 ((\<lambda>e. micros (the (event_time f e))) ` set evs))"
  let ?ts = "map (event_time f) (filter pos_event evs)"
  from assms have kk: "\<forall>a \<in> set ?ts. \<forall>b \<in> set ?ts. is_aware (the a) = is_aware (the b)"
    unfolding chronological_def Let_def by blast
  have k: "\<forall>e \<in> set evs. pos_event e \<longrightarrow> is_aware (the (event_time f e)) = ?k"
  proof (intro ballI impI)
    fix e assume "e \<in> set evs" "pos_event e"
    then have "event_time f e \<in> set ?ts" by simp
    moreover from e0 have "event_time f e0 \<in> set ?ts" by simp
    ultimately show "is_aware (the (event_time f e)) = ?k" using kk by blast
  qed
  have "\<forall>e \<in> set evs. micros (the (event_time f e)) \<le> ?B"
  proof
    fix e assume "e \<in> set evs"
    then have "micros (the (event_time f e))
        \<in> insert 0 ((\<lambda>e. micros (the (event_time f e))) ` set evs)" by simp
    then show "micros (the (event_time f e)) \<le> ?B" by (intro Max_ge) simp_all
  qed
  with k have "\<forall>e \<in> set evs. pos_event e \<longrightarrow>
      is_aware (the (event_time f e)) = ?k \<and> micros (the (event_time f e)) \<le> ?B" by simp
  then show ?thesis by (intro exI)
qed

lemma filter_unclosed:
  "distinct (map fst opens) \<Longrightarrow>
   filter (\<lambda>s. s_zone s = z) (unclosed opens)
     = (case map_of opens z of None \<Rightarrow> [] | Some v \<Rightarrow> [(z, v, None)])"
proof (induction opens)
  case Nil
  then show ?case by (simp add: unclosed_def)
next
  case (Cons a opens)
  obtain k v where a: "a = (k, v)" by (cases a)
  show ?case
  proof (cases "k = z")
    case True
    with Cons.prems a have "map_of opens z = None"
      by (simp add: map_of_eq_None_iff)
    with Cons a True show ?thesis
      by (simp add: unclosed_def s_zone_def)
  next
    case False
    with Cons a show ?thesis
      by (simp add: unclosed_def s_zone_def)
  qed
qed

lemma bounded_state_well_formed:
  assumes b: "bounded_state k B (sessions, opens)" and d: "distinct (map fst opens)"
  shows "sort_by_start (sessions @ unclosed opens)
           = Inr (sort_key start_key (sessions @ unclosed opens))
         \<and> well_formed (sort_key start_key (sessions @ unclosed opens))"
proof -
  let ?L = "sessions @ unclosed opens"
  from b have b1: "\<forall>x \<in> set sessions. \<exists>s e. s_start x = Some s \<and> s_end x = Some e
            \<and> is_aware s = k \<and> is_aware e = k \<and> micros s \<le> micros e \<and> micros e \<le> B"
    and b2: "\<forall>(z, v) \<in> set opens. \<exists>s. v = Some s \<and> is_aware s = k \<and> micros s \<le> B
            \<and> (\<forall>x \<in> set sessions. s_zone x = z \<longrightarrow> micros (the (s_end x)) \<le> micros s)"
    and b3: "sorted_wrt (\<lambda>a b. s_zone a = s_zone b \<longrightarrow> ends_before a b) sessions"
    by (simp_all add: bounded_state_def)
  have starts: "\<forall>s \<in> set ?L. \<exists>d. s_start s = Some d \<and> is_aware d = k"
    using b1 b2 by (fastforce simp: unclosed_def s_start_def)
  then have "starts_comparable ?L"
    unfolding starts_comparable_def by (metis option.distinct(1) option.sel)
  then have ok: "sort_by_start ?L = Inr (sort_key start_key ?L)"
    by (simp add: sort_by_start_def)
  have kinds: "\<forall>s \<in> set ?L. \<forall>t \<in> set (session_times s). is_aware t = k"
    using b1 b2 by (fastforce simp: unclosed_def session_times_def s_start_def s_end_def)
  have ok1: "one_kind (sort_key start_key ?L)"
    unfolding one_kind_def using kinds by (auto simp del: set_append)
  have ok0: "\<forall>s \<in> set ?L. s_start s \<noteq> None"
    using starts by auto
  have le: "\<forall>s \<in> set ?L. case s_end s of None \<Rightarrow> True | Some e \<Rightarrow> start_key s \<le> micros e"
    using b1 by (fastforce simp: unclosed_def s_end_def start_key_def split: option.splits)
  have zone: "sorted_wrt ends_before (filter (\<lambda>s. s_zone s = z) ?L)" for z
  proof -
    have f1: "sorted_wrt ends_before (filter (\<lambda>s. s_zone s = z) sessions)"
      using b3 by (induction sessions) auto
    show ?thesis
    proof (cases "map_of opens z")
      case None
      then show ?thesis using f1 by (simp add: filter_unclosed [OF d])
    next
      case (Some v)
      then have "(z, v) \<in> set opens" by (rule map_of_SomeD)
      with b2 obtain s where s: "v = Some s"
        "\<forall>x \<in> set sessions. s_zone x = z \<longrightarrow> micros (the (s_end x)) \<le> micros s" by fastforce
      have "\<forall>x \<in> set (filter (\<lambda>s. s_zone s = z) sessions). ends_before x (z, v, None)"
        using s b1 by (fastforce simp: ends_before_def start_key_def s_start_def)
      then show ?thesis using f1 Some
        by (simp add: filter_unclosed [OF d] sorted_wrt_append)
    qed
  qed
  have zsorted: "sorted (map start_key (filter (\<lambda>s. s_zone s = z) ?L))" for z
  proof -
    have "sorted_wrt (\<lambda>a b. start_key a \<le> start_key b) (filter (\<lambda>s. s_zone s = z) ?L)"
    proof (rule sorted_wrt_mono_rel [OF _ zone [of z]])
      fix a b assume "a \<in> set (filter (\<lambda>s. s_zone s = z) ?L)" and ab: "ends_before a b"
      then have "case s_end a of None \<Rightarrow> True | Some e \<Rightarrow> start_key a \<le> micros e"
        using le by auto
      with ab show "start_key a \<le> start_key b"
        by (auto simp: ends_before_def split: option.splits)
    qed
    then show ?thesis by (simp only: sorted_map)
  qed
  have fz: "filter (\<lambda>s. s_zone s = z) (sort_key start_key ?L) = filter (\<lambda>s. s_zone s = z) ?L" for z
    by (simp only: filter_sort sort_key_id_if_sorted [OF zsorted])
  have "well_formed (sort_key start_key ?L)"
    unfolding well_formed_def using ok0 ok1 le zone by (simp add: fz)
  with ok show ?thesis by simp
qed

lemma build_chronological:
  assumes "chronological f evs"
  shows "\<exists>out. build_raw_sessions f evs = Inr out \<and> well_formed out"
proof -
  from chronological_kind_bound [OF assms] obtain k B where
    "\<forall>e \<in> set evs. pos_event e \<longrightarrow>
      is_aware (the (event_time f e)) = k \<and> micros (the (event_time f e)) \<le> B" by blast
  from raw_loop_bounded [OF assms this]
  obtain st where st: "raw_loop f evs = Inr st" and b: "bounded_state k B st" by blast
  obtain sessions opens where so: "st = (sessions, opens)" by (cases st)
  have d: "distinct (map fst opens)" using raw_loop_inv [OF st [unfolded so]] by simp
  from bounded_state_well_formed [OF b [unfolded so] d] show ?thesis
    by (simp add: build_raw_sessions_def st so)
qed

lemma build_sorted: "build_raw_sessions f evs = Inr out \<Longrightarrow> sorted (map start_key out)"
  by (cases "raw_loop f evs")
     (auto simp: build_raw_sessions_def sort_by_start_def split: if_splits)

text \<open>
  C8, as the code has it. A list returned by the session builder is sorted by start.
  When the events come in time order (every timestamp of an event of a POS zone parses,
  and the entries and exits of POS zones carry timestamps of one kind that never
  decrease), the builder returns a list, and that list is well formed: within each zone
  every session is closed and ends no later than every later session starts, only the
  last may be open, and every closed session has its start at or before its end.
\<close>

theorem session_builder_output:
  "(build_raw_sessions f evs = Inr out \<longrightarrow> sorted (map start_key out))
   \<and> (chronological f evs \<longrightarrow> (\<exists>out'. build_raw_sessions f evs = Inr out' \<and> well_formed out'))"
  by (intro conjI impI) (erule build_sorted, erule build_chronological)

theorem session_builder_output_witness:
  "chronological iso_example
     [zone_entry ''POS_1'' (TsString ''2024-01-01T00:00:00Z''),
      zone_exit ''POS_1'' (TsString ''2024-01-01T00:00:10Z''),
      zone_entry ''POS_2'' (TsString ''2024-01-01T00:00:11Z''),
      zone_exit ''POS_2'' (TsString ''2024-01-01T00:00:12Z''),
      zone_entry ''POS_1'' (TsString ''2024-01-01T00:00:15Z''),
      zone_exit ''POS_1'' (TsString ''2024-01-01T00:00:20Z''),
      zone_entry ''POS_3'' (TsString ''2024-01-01T00:00:30Z'')]
   \<and> build_raw_sessions iso_example
     [zone_entry ''POS_1'' (TsString ''2024-01-01T00:00:00Z''),
      zone_exit ''POS_1'' (TsString ''2024-01-01T00:00:10Z''),
      zone_entry ''POS_2'' (TsString ''2024-01-01T00:00:11Z''),
      zone_exit ''POS_2'' (TsString ''2024-01-01T00:00:12Z''),
      zone_entry ''POS_1'' (TsString ''2024-01-01T00:00:15Z''),
      zone_exit ''POS_1'' (TsString ''2024-01-01T00:00:20Z''),
      zone_entry ''POS_3'' (TsString ''2024-01-01T00:00:30Z'')]
     = Inr [(''POS_1'', Some (Aware 0), Some (Aware 10000000)),
            (''POS_2'', Some (Aware 11000000), Some (Aware 12000000)),
            (''POS_1'', Some (Aware 15000000), Some (Aware 20000000)),
            (''POS_3'', Some (Aware 30000000), None)]
   \<and> well_formed [(''POS_1'', Some (Aware 0), Some (Aware 10000000)),
            (''POS_2'', Some (Aware 11000000), Some (Aware 12000000)),
            (''POS_1'', Some (Aware 15000000), Some (Aware 20000000)),
            (''POS_3'', Some (Aware 30000000), None)]"
proof -
  let ?evs = "[zone_entry ''POS_1'' (TsString ''2024-01-01T00:00:00Z''),
      zone_exit ''POS_1'' (TsString ''2024-01-01T00:00:10Z''),
      zone_entry ''POS_2'' (TsString ''2024-01-01T00:00:11Z''),
      zone_exit ''POS_2'' (TsString ''2024-01-01T00:00:12Z''),
      zone_entry ''POS_1'' (TsString ''2024-01-01T00:00:15Z''),
      zone_exit ''POS_1'' (TsString ''2024-01-01T00:00:20Z''),
      zone_entry ''POS_3'' (TsString ''2024-01-01T00:00:30Z'')]"
  have c: "chronological iso_example ?evs"
    by (simp add: chronological_def parse_failure_def pos_zone_event_def pos_event_def
          relevant_def event_time_def zone_entry_def zone_exit_def is_pos_zone_def parse_ts_def
          iso_example_def)
  have b: "build_raw_sessions iso_example ?evs
     = Inr [(''POS_1'', Some (Aware 0), Some (Aware 10000000)),
            (''POS_2'', Some (Aware 11000000), Some (Aware 12000000)),
            (''POS_1'', Some (Aware 15000000), Some (Aware 20000000)),
            (''POS_3'', Some (Aware 30000000), None)]"
    by (simp add: build_raw_sessions_def raw_loop_def raw_step_def zone_entry_def zone_exit_def
          is_pos_zone_def parse_ts_def iso_example_def unclosed_def sort_by_start_def
          starts_comparable_def start_key_def s_start_def)
  from session_builder_output [of iso_example ?evs] c
  obtain out' where "build_raw_sessions iso_example ?evs = Inr out'" "well_formed out'" by blast
  with b have "well_formed [(''POS_1'', Some (Aware 0), Some (Aware 10000000)),
            (''POS_2'', Some (Aware 11000000), Some (Aware 12000000)),
            (''POS_1'', Some (Aware 15000000), Some (Aware 20000000)),
            (''POS_3'', Some (Aware 30000000), None)]" by simp
  with c b show ?thesis by (intro conjI)
qed

text \<open>
  C8 as stated fails: an entry and an exit with the same timestamp give a closed session
  with start equal to end, and events out of time order give two sessions of one zone that
  overlap.
\<close>

theorem session_builder_output_counterexample:
  "build_raw_sessions iso_example
     [zone_entry ''POS_1'' (TsString ''2024-01-01T00:00:05Z''),
      zone_exit ''POS_1'' (TsString ''2024-01-01T00:00:05Z'')]
     = Inr [(''POS_1'', Some (Aware 5000000), Some (Aware 5000000))]
   \<and> build_raw_sessions iso_example
       [zone_entry ''POS_1'' (TsString ''2024-01-01T00:00:00Z''),
        zone_exit ''POS_1'' (TsString ''2024-01-01T00:00:10Z''),
        zone_entry ''POS_1'' (TsString ''2024-01-01T00:00:05Z''),
        zone_exit ''POS_1'' (TsString ''2024-01-01T00:00:07Z'')]
     = Inr [(''POS_1'', Some (Aware 0), Some (Aware 10000000)),
            (''POS_1'', Some (Aware 5000000), Some (Aware 7000000))]"
  by (simp add: build_raw_sessions_def raw_loop_def raw_step_def zone_entry_def zone_exit_def
        is_pos_zone_def parse_ts_def iso_example_def unclosed_def sort_by_start_def
        starts_comparable_def start_key_def s_start_def)

end
